theory Spec2Isabelle
  imports Main "HOL-Library.Word"
begin

section \<open>The retry package (retry.go)\<close>

subsection \<open>Worker, Limiter, Timer\<close>

text \<open>
  Go's \<^verbatim>\<open>error\<close> is an interface value; \<^verbatim>\<open>nil\<close> means success. An error is
  modelled as \<open>'e option\<close>, with \<open>None\<close> for \<^verbatim>\<open>nil\<close> and \<open>Some e\<close> for the
  non-nil error value \<open>e\<close>.

  \<^verbatim>\<open>Worker\<close>, \<^verbatim>\<open>Limiter\<close> and \<^verbatim>\<open>Timer\<close> are Go function values, usually
  closures over mutable variables. The variables they can reach form the state \<open>'s\<close>,
  which each call takes and returns:
  \<^verbatim>\<open>type Worker func() error\<close>,
  \<^verbatim>\<open>type Limiter func(error) bool\<close>,
  \<^verbatim>\<open>type Timer func()\<close>.
\<close>

type_synonym ('e, 's) Worker = "'s \<Rightarrow> 'e option \<times> 's"
type_synonym ('e, 's) Limiter = "'e option \<Rightarrow> 's \<Rightarrow> bool \<times> 's"
type_synonym 's Timer = "'s \<Rightarrow> 's"

subsection \<open>Retry\<close>

text \<open>
  \<^verbatim>\<open>
  func Retry(worker Worker, limiter Limiter, timer Timer) error {
          err := worker()
          for err != nil && limiter(err) {
                  timer()
                  err = worker()
          }
          return err
  }
  \<close>
  The loop need not end (\<^verbatim>\<open>Forever\<close> with a worker that always fails), so it is run
  with fuel: \<open>n\<close> bounds the number of times the loop body is entered. A run that wants to
  enter the body with no fuel left stops as \<open>Unfinished\<close>, in the state reached so far.
  The condition \<^verbatim>\<open>err != nil && limiter(err)\<close> is short-circuit: the limiter is
  not called when \<open>err\<close> is \<^verbatim>\<open>nil\<close>. Each call of the worker, the limiter and
  the timer is taken to return: a function that panics or blocks for ever is outside the
  model.
\<close>

datatype 'e outcome = Returned "'e option" | Unfinished

fun Retry_loop ::
  "nat \<Rightarrow> ('e, 's) Worker \<Rightarrow> ('e, 's) Limiter \<Rightarrow> 's Timer \<Rightarrow> 'e option \<Rightarrow> 's \<Rightarrow> 'e outcome \<times> 's"
where
  "Retry_loop n worker limiter timer None s = (Returned None, s)"
| "Retry_loop n worker limiter timer (Some e) s =
     (let (again, s1) = limiter (Some e) s in
      if again then
        (case n of
           0 \<Rightarrow> (Unfinished, s1)
         | Suc k \<Rightarrow>
             (let s2 = timer s1;
                  (err, s3) = worker s2
              in Retry_loop k worker limiter timer err s3))
      else (Returned (Some e), s1))"

definition Retry ::
  "nat \<Rightarrow> ('e, 's) Worker \<Rightarrow> ('e, 's) Limiter \<Rightarrow> 's Timer \<Rightarrow> 's \<Rightarrow> 'e outcome \<times> 's"
where
  "Retry n worker limiter timer s =
     (let (err, s1) = worker s in Retry_loop n worker limiter timer err s1)"

subsection \<open>Observing the calls\<close>

text \<open>
  To speak about which calls a run makes and in which order, the three functions handed to
  \<open>Retry\<close> are wrapped so that each call appends an event to a log carried beside the
  state. The wrappers change nothing else: the wrapped function sees the same state and
  returns the same value.
\<close>

datatype 'e event =
    WorkerCall "'e option"
  | LimiterCall "'e option" bool
  | TimerCall

definition logW :: "('e, 's) Worker \<Rightarrow> ('e, 's \<times> 'e event list) Worker" where
  "logW worker = (\<lambda>(s, tr). let (err, s') = worker s in (err, (s', tr @ [WorkerCall err])))"

definition logL :: "('e, 's) Limiter \<Rightarrow> ('e, 's \<times> 'e event list) Limiter" where
  "logL limiter =
     (\<lambda>err (s, tr). let (b, s') = limiter err s in (b, (s', tr @ [LimiterCall err b])))"

definition logT :: "'s Timer \<Rightarrow> ('s \<times> 'e event list) Timer" where
  "logT timer = (\<lambda>(s, tr). (timer s, tr @ [TimerCall]))"

fun isWorkerCall :: "'e event \<Rightarrow> bool" where
  "isWorkerCall (WorkerCall _) = True"
| "isWorkerCall _ = False"

fun isTimerCall :: "'e event \<Rightarrow> bool" where
  "isTimerCall TimerCall = True"
| "isTimerCall _ = False"

subsection \<open>Limiters\<close>

text \<open>
  \<^verbatim>\<open>
  func Once() Limiter {
          return func(_ error) bool { return false }
  }
  func Forever() Limiter {
          return func(_ error) bool { return true }
  }
  \<close>
  Both closures capture nothing, so they leave every state as it is.
\<close>

definition Once :: "('e, 's) Limiter" where
  "Once = (\<lambda>_ s. (False, s))"

definition Forever :: "('e, 's) Limiter" where
  "Forever = (\<lambda>_ s. (True, s))"

text \<open>
  \<^verbatim>\<open>
  func Counts(max int) Limiter {
          // First attempt counts
          c := 1
          return func(_ error) bool {
                  for c < max {
                          c++
                          return true
                  }
                  return false
          }
  }
  \<close>
  The closure captures the counter \<open>c\<close>, which is its whole state; \<open>Counts_closure\<close> is
  the value \<open>c\<close> is created with. The body of the \<^verbatim>\<open>for\<close> returns in its first
  pass, so the loop is a conditional. \<^verbatim>\<open>c++\<close> runs only when \<open>c < max\<close>, so it
  stays at or below \<open>max\<close> and cannot overflow Go's \<^verbatim>\<open>int\<close>, whatever its width:
  \<open>c\<close> and \<open>max\<close> are modelled as \<open>int\<close> (\<open>max\<close> is written \<open>maxv\<close>).
\<close>

definition Counts_closure :: int where
  "Counts_closure = 1"

definition Counts :: "int \<Rightarrow> ('e, int) Limiter" where
  "Counts maxv = (\<lambda>_ c. if c < maxv then (True, c + 1) else (False, c))"

text \<open>
  \<^verbatim>\<open>
  func CancelableLimiter(ctx context.Context, limiter Limiter) Limiter {
          return func(err error) bool {
                  select {
                  case <-ctx.Done():
                          return false
                  default:
                  }
                  return limiter(err)
          }
  }
  func UntilCanceled(ctx context.Context) Limiter {
          return CancelableLimiter(ctx, Forever())
  }
  \<close>
  The \<^verbatim>\<open>select\<close> with a \<^verbatim>\<open>default\<close> branch does not block: it reads whether
  \<^verbatim>\<open>ctx.Done()\<close> is closed at the moment of the call. The context is owned by the
  caller; the limiter only reads it. It is modelled as an observation \<open>ctx\<close> of the
  state, true when the context has been canceled.
\<close>

definition CancelableLimiter :: "('s \<Rightarrow> bool) \<Rightarrow> ('e, 's) Limiter \<Rightarrow> ('e, 's) Limiter" where
  "CancelableLimiter ctx limiter = (\<lambda>err s. if ctx s then (False, s) else limiter err s)"

definition UntilCanceled :: "('s \<Rightarrow> bool) \<Rightarrow> ('e, 's) Limiter" where
  "UntilCanceled ctx = CancelableLimiter ctx Forever"

text \<open>
  A limiter is invoked several times in a row, once for each error of a list; the answers
  are collected in order.
\<close>

fun limiter_calls :: "('e, 's) Limiter \<Rightarrow> 'e option list \<Rightarrow> 's \<Rightarrow> bool list \<times> 's" where
  "limiter_calls limiter [] s = ([], s)"
| "limiter_calls limiter (err # errs) s =
     (let (b, s1) = limiter err s;
          (bs, s2) = limiter_calls limiter errs s1
      in (b # bs, s2))"

text \<open>
  The variables a closure captures are private to it. When a limiter with private state
  \<open>'c\<close> runs beside a worker and a timer that work on the rest \<open>'u\<close> of the program's
  state, the state of the run is the pair, and each function touches its own component.
\<close>

definition private_limiter :: "('e, 'c) Limiter \<Rightarrow> ('e, 'c \<times> 'u) Limiter" where
  "private_limiter limiter = (\<lambda>err (c, u). let (b, c') = limiter err c in (b, (c', u)))"

definition outside_worker :: "('e, 'u) Worker \<Rightarrow> ('e, 'c \<times> 'u) Worker" where
  "outside_worker worker = (\<lambda>(c, u). let (err, u') = worker u in (err, (c, u')))"

definition outside_timer :: "'u Timer \<Rightarrow> ('c \<times> 'u) Timer" where
  "outside_timer timer = (\<lambda>(c, u). (c, timer u))"

subsection \<open>Timers\<close>

text \<open>
  \<^verbatim>\<open>time.Duration\<close> is an \<^verbatim>\<open>int64\<close> count of nanoseconds: a 64-bit word, read
  as two's complement. \<^verbatim>\<open>dur * 2\<close> wraps around and \<^verbatim>\<open>dur > ceil\<close> compares the
  signed values.

  \<^verbatim>\<open>
  func MultiplicativeBackoff(base time.Duration, ceil time.Duration) Timer {
          dur := base
          return func() {
                  time.Sleep(dur)
                  if dur != ceil {
                          dur = dur * 2
                          if dur > ceil {
                                  dur = ceil
                          }
                  }
          }
  }
  \<close>
  The closure captures \<open>dur\<close>. What it does to the world is to pause, and the pauses are
  recorded in order beside \<open>dur\<close>. \<open>MultiplicativeBackoff_closure base\<close> is the state the
  closure is created with, \<open>MultiplicativeBackoff ceil\<close> one call of it.
\<close>

type_synonym Duration = "64 word"

datatype pause =
    Sleep Duration
  | TimerFired Duration
  | TimerStopped Duration

fun requested :: "pause \<Rightarrow> Duration" where
  "requested (Sleep d) = d"
| "requested (TimerFired d) = d"
| "requested (TimerStopped d) = d"

record backoff =
  dur :: Duration
  pauses :: "pause list"

definition MultiplicativeBackoff_closure :: "Duration \<Rightarrow> backoff" where
  "MultiplicativeBackoff_closure base = \<lparr>dur = base, pauses = []\<rparr>"

definition MultiplicativeBackoff :: "Duration \<Rightarrow> backoff Timer" where
  "MultiplicativeBackoff ceil s =
     (let s1 = s\<lparr>pauses := pauses s @ [Sleep (dur s)]\<rparr> in
      if dur s1 \<noteq> ceil then
        (let s2 = s1\<lparr>dur := dur s1 * 2\<rparr> in
         if sint ceil < sint (dur s2) then s2\<lparr>dur := ceil\<rparr> else s2)
      else s1)"

text \<open>
  \<^verbatim>\<open>
  func CancelableMultiplicativeBackoff(ctx context.Context, base time.Duration,
                  ceil time.Duration) Timer {
          dur := base
          return func() {
                  timer := time.NewTimer(dur)
                  select {
                  case <-timer.C:
                  case <-ctx.Done():
                          timer.Stop()
                  }
                  if dur != ceil {
                          dur = dur * 2
                          if dur > ceil {
                                  dur = ceil
                          }
                  }
          }
  }
  \<close>
  Which branch of the \<^verbatim>\<open>select\<close> is taken depends on when the context is canceled,
  which the caller decides. Each call therefore takes the outcome of the race as an input:
  \<open>canceled\<close> is true when \<^verbatim>\<open>ctx.Done()\<close> is received first (and the timer is
  stopped), false when the timer fires first.
\<close>

definition CancelableMultiplicativeBackoff_closure :: "Duration \<Rightarrow> backoff" where
  "CancelableMultiplicativeBackoff_closure base = \<lparr>dur = base, pauses = []\<rparr>"

definition CancelableMultiplicativeBackoff :: "Duration \<Rightarrow> bool \<Rightarrow> backoff \<Rightarrow> backoff" where
  "CancelableMultiplicativeBackoff ceil canceled s =
     (let s1 = (if canceled then s\<lparr>pauses := pauses s @ [TimerStopped (dur s)]\<rparr>
                else s\<lparr>pauses := pauses s @ [TimerFired (dur s)]\<rparr>) in
      if dur s1 \<noteq> ceil then
        (let s2 = s1\<lparr>dur := dur s1 * 2\<rparr> in
         if sint ceil < sint (dur s2) then s2\<lparr>dur := ceil\<rparr> else s2)
      else s1)"

text \<open>
  The smaller of two durations, compared as signed values as Go compares them.
\<close>

definition smin :: "Duration \<Rightarrow> Duration \<Rightarrow> Duration" where
  "smin a b = (if sint a \<le> sint b then a else b)"

subsection \<open>The order of calls\<close>

text \<open>
  \<open>retry_order a b\<close> says that the event \<open>b\<close> may come directly after the event \<open>a\<close>
  in the log of a run:
  \<^item> after a failed worker call, a limiter call with that very error;
  \<^item> after a limiter call that answered true, a timer call;
  \<^item> after a timer call, a worker call;
  \<^item> nothing else: in particular nothing after a worker call that returned nil, and
    nothing after a limiter call that answered false.
\<close>

fun retry_order :: "'e event \<Rightarrow> 'e event \<Rightarrow> bool" where
  "retry_order (WorkerCall (Some e)) (LimiterCall err b) = (err = Some e)"
| "retry_order (LimiterCall err True) TimerCall = True"
| "retry_order TimerCall (WorkerCall err) = True"
| "retry_order _ _ = False"

text \<open>
  \<open>takes_turns a b\<close> says that of the events \<open>a\<close> and \<open>b\<close> one is a limiter
  call and the other a timer call.
\<close>

fun takes_turns :: "'e event \<Rightarrow> 'e event \<Rightarrow> bool" where
  "takes_turns (LimiterCall _ _) TimerCall = True"
| "takes_turns TimerCall (LimiterCall _ _) = True"
| "takes_turns _ _ = False"

text \<open>
  \<open>final_event out ev\<close> says that \<open>ev\<close> is the last event that fits the outcome \<open>out\<close>:
  a worker call that returned nil when Retry returns nil, a limiter call that answered
  false to the error Retry returns, and, for a run stopped for lack of fuel, a limiter call
  that answered true.
\<close>

fun final_event :: "'e outcome \<Rightarrow> 'e event \<Rightarrow> bool" where
  "final_event (Returned None) ev = (ev = WorkerCall None)"
| "final_event (Returned (Some e)) ev = (ev = LimiterCall (Some e) False)"
| "final_event Unfinished (LimiterCall (Some e) True) = True"
| "final_event Unfinished _ = False"

text \<open>
  \<open>last_attempt out ev\<close> says that \<open>ev\<close> is a worker call that fits the outcome
  \<open>out\<close> as the last attempt of the run: it returned what Retry returns, or, for a run
  stopped for lack of fuel, it failed.
\<close>

fun last_attempt :: "'e outcome \<Rightarrow> 'e event \<Rightarrow> bool" where
  "last_attempt (Returned r) (WorkerCall r') = (r' = r)"
| "last_attempt Unfinished (WorkerCall r') = (r' \<noteq> None)"
| "last_attempt _ _ = False"

text \<open>
  What the loop appends to the log, when it starts after a worker call that returned
  \<open>err\<close>: the events are in order, hold as many worker calls as timer calls, end as the
  outcome says, the last worker call returned what Retry returns, and with the worker
  calls left out limiter calls and timer calls take turns, a limiter call first.
\<close>

definition log_ok :: "'e outcome \<Rightarrow> 'e option \<Rightarrow> 'e event list \<Rightarrow> bool" where
  "log_ok out err rest \<longleftrightarrow>
     successively retry_order (WorkerCall err # rest)
     \<and> length (filter isWorkerCall rest) = length (filter isTimerCall rest)
     \<and> final_event out (last (WorkerCall err # rest))
     \<and> last_attempt out (last (filter isWorkerCall (WorkerCall err # rest)))
     \<and> successively takes_turns (TimerCall # filter (\<lambda>ev. \<not> isWorkerCall ev) rest)"

subsection \<open>Example workers\<close>

text \<open>
  A worker that counts its calls in its state, fails on each of the first \<open>k\<close> calls with
  the number of the call as the error, and succeeds from then on; \<open>flaky 0\<close> always
  succeeds. A worker that fails on every call, with the number of the call as the error.
\<close>

definition flaky :: "nat \<Rightarrow> (nat, nat) Worker" where
  "flaky k = (\<lambda>u. (if u < k then Some u else None, Suc u))"

definition hopeless :: "(nat, nat) Worker" where
  "hopeless = (\<lambda>u. (Some u, Suc u))"

section \<open>Properties of Retry\<close>

subsection \<open>One call of each wrapper\<close>

lemma logW_apply:
  "logW worker (s, tr) = (fst (worker s), (snd (worker s), tr @ [WorkerCall (fst (worker s))]))"
  by (simp add: logW_def split: prod.split)

lemma logL_apply:
  "logL limiter err (s, tr) =
     (fst (limiter err s), (snd (limiter err s), tr @ [LimiterCall err (fst (limiter err s))]))"
  by (simp add: logL_def split: prod.split)

lemma logT_apply: "logT timer (s, tr) = (timer s, tr @ [TimerCall])"
  by (simp add: logT_def)

subsection \<open>One pass of the loop\<close>

text \<open>
  The three ways the loop goes on after a failed attempt: the limiter answers false and
  Retry returns the error; the limiter answers true and no fuel is left; the limiter
  answers true, the timer runs, the worker runs, and the loop starts again.
\<close>

lemma Retry_loop_stop:
  "\<not> fst (l (Some e) s) \<Longrightarrow>
   Retry_loop n (logW w) (logL l) (logT t) (Some e) (s, tr)
     = (Returned (Some e), (snd (l (Some e) s), tr @ [LimiterCall (Some e) False]))"
  by (simp add: logL_apply)

lemma Retry_loop_no_fuel:
  "fst (l (Some e) s) \<Longrightarrow>
   Retry_loop 0 (logW w) (logL l) (logT t) (Some e) (s, tr)
     = (Unfinished, (snd (l (Some e) s), tr @ [LimiterCall (Some e) True]))"
  by (simp add: logL_apply)

lemma Retry_loop_again:
  "fst (l (Some e) s) \<Longrightarrow>
   Retry_loop (Suc n) (logW w) (logL l) (logT t) (Some e) (s, tr)
     = Retry_loop n (logW w) (logL l) (logT t)
         (fst (w (t (snd (l (Some e) s)))))
         (snd (w (t (snd (l (Some e) s)))),
          tr @ [LimiterCall (Some e) True, TimerCall, WorkerCall (fst (w (t (snd (l (Some e) s)))))])"
  by (simp add: logL_apply logT_apply logW_apply)

subsection \<open>The log of a run\<close>

lemma log_ok_success: "log_ok (Returned None) None []"
  by (simp add: log_ok_def)

lemma log_ok_stop: "log_ok (Returned (Some e)) (Some e) [LimiterCall (Some e) False]"
  by (simp add: log_ok_def)

lemma log_ok_no_fuel: "log_ok Unfinished (Some e) [LimiterCall (Some e) True]"
  by (simp add: log_ok_def)

lemma log_ok_again:
  assumes "log_ok out err' rest"
  shows "log_ok out (Some e) (LimiterCall (Some e) True # TimerCall # WorkerCall err' # rest)"
proof -
  from assms have
    b: "successively retry_order (WorkerCall err' # rest)" and
    c: "length (filter isWorkerCall rest) = length (filter isTimerCall rest)" and
    f: "final_event out (last (WorkerCall err' # rest))" and
    d: "last_attempt out (last (filter isWorkerCall (WorkerCall err' # rest)))" and
    g: "successively takes_turns (TimerCall # filter (\<lambda>ev. \<not> isWorkerCall ev) rest)"
    unfolding log_ok_def by simp_all
  let ?rest = "LimiterCall (Some e) True # TimerCall # WorkerCall err' # rest"
  have 1: "successively retry_order (WorkerCall (Some e) # ?rest)"
    using b by simp
  have 2: "length (filter isWorkerCall ?rest) = length (filter isTimerCall ?rest)"
    using c by simp
  have 3: "final_event out (last (WorkerCall (Some e) # ?rest))"
    using f by simp
  have 4: "last_attempt out (last (filter isWorkerCall (WorkerCall (Some e) # ?rest)))"
    using d by simp
  have 5: "successively takes_turns (TimerCall # filter (\<lambda>ev. \<not> isWorkerCall ev) ?rest)"
    using g by simp
  from 1 2 3 4 5 show ?thesis unfolding log_ok_def by simp
qed

lemma Retry_loop_log:
  "Retry_loop n (logW w) (logL l) (logT t) err (s, tr) = (out, (s', tr')) \<Longrightarrow>
   \<exists>rest. tr' = tr @ rest \<and> log_ok out err rest"
proof (induction n arbitrary: err s tr)
  case 0
  show ?case
  proof (cases err)
    case None
    with 0 show ?thesis by (auto simp: log_ok_success)
  next
    case (Some e)
    show ?thesis
    proof (cases "fst (l (Some e) s)")
      case False
      with 0 Some show ?thesis by (auto simp: Retry_loop_stop log_ok_stop simp del: Retry_loop.simps)
    next
      case True
      with 0 Some show ?thesis by (auto simp: Retry_loop_no_fuel log_ok_no_fuel simp del: Retry_loop.simps)
    qed
  qed
next
  case (Suc n)
  show ?case
  proof (cases err)
    case None
    with Suc.prems show ?thesis by (auto simp: log_ok_success)
  next
    case (Some e)
    show ?thesis
    proof (cases "fst (l (Some e) s)")
      case False
      with Suc.prems Some show ?thesis
        by (auto simp: Retry_loop_stop log_ok_stop simp del: Retry_loop.simps)
    next
      case True
      define err' where "err' = fst (w (t (snd (l (Some e) s))))"
      define s3 where "s3 = snd (w (t (snd (l (Some e) s))))"
      define tr3 where "tr3 = tr @ [LimiterCall (Some e) True, TimerCall, WorkerCall err']"
      have run: "Retry_loop n (logW w) (logL l) (logT t) err' (s3, tr3) = (out, (s', tr'))"
        using Suc.prems Some True
        by (simp add: Retry_loop_again err'_def s3_def tr3_def del: Retry_loop.simps)
      from Suc.IH [OF run] obtain rest where
        a: "tr' = tr3 @ rest" and b: "log_ok out err' rest"
        by blast
      have "tr' = tr @ LimiterCall (Some e) True # TimerCall # WorkerCall err' # rest"
        using a by (simp add: tr3_def)
      with log_ok_again [OF b, of e] Some show ?thesis by blast
    qed
  qed
qed

lemma Retry_log:
  assumes "Retry n (logW w) (logL l) (logT t) (s, []) = (out, (s', tr))"
  shows "\<exists>first rest. tr = WorkerCall first # rest
     \<and> successively retry_order tr
     \<and> length (filter isWorkerCall tr) = Suc (length (filter isTimerCall tr))
     \<and> final_event out (last tr)
     \<and> last_attempt out (last (filter isWorkerCall tr))
     \<and> successively takes_turns (filter (\<lambda>ev. \<not> isWorkerCall ev) tr)"
proof -
  have "Retry_loop n (logW w) (logL l) (logT t) (fst (w s)) (snd (w s), [WorkerCall (fst (w s))])
          = (out, (s', tr))"
    using assms by (simp add: Retry_def logW_apply)
  from Retry_loop_log [OF this] obtain rest where
    a: "tr = [WorkerCall (fst (w s))] @ rest" and ok: "log_ok out (fst (w s)) rest"
    by blast
  have tr: "tr = WorkerCall (fst (w s)) # rest" using a by simp
  from ok have
    b: "successively retry_order tr" and
    c: "length (filter isWorkerCall rest) = length (filter isTimerCall rest)" and
    f: "final_event out (last tr)" and
    d: "last_attempt out (last (filter isWorkerCall tr))" and
    g: "successively takes_turns (TimerCall # filter (\<lambda>ev. \<not> isWorkerCall ev) rest)"
    unfolding log_ok_def tr by simp_all
  have h: "length (filter isWorkerCall tr) = Suc (length (filter isTimerCall tr))"
    using c by (simp add: tr)
  have "successively takes_turns (filter (\<lambda>ev. \<not> isWorkerCall ev) rest)"
    using g by (auto simp: successively_Cons)
  then have "successively takes_turns (filter (\<lambda>ev. \<not> isWorkerCall ev) tr)"
    by (simp add: tr)
  with tr b f d h show ?thesis by blast
qed

lemma last_attempt_Returned:
  "last_attempt out ev \<Longrightarrow> out = Returned r \<Longrightarrow> ev = WorkerCall r"
  by (cases ev) auto

lemma last_attempt_success:
  "last_attempt out (WorkerCall None) \<Longrightarrow> out = Returned None"
  by (cases out) auto

text \<open>Logging does not change what Retry returns nor the state it leaves.\<close>

lemma Retry_loop_log_transparent:
  "Retry_loop n (logW w) (logL l) (logT t) err (s, tr) = (out, (s', tr')) \<Longrightarrow>
   Retry_loop n w l t err s = (out, s')"
proof (induction n arbitrary: err s tr)
  case 0
  then show ?case
    by (cases err) (auto simp: logL_apply split: if_splits prod.splits)
next
  case (Suc n)
  then show ?case
    by (cases err) (auto simp: logL_apply logT_apply logW_apply split: if_splits prod.splits)
qed

lemma Retry_log_transparent:
  "Retry n (logW w) (logL l) (logT t) (s, []) = (out, (s', tr)) \<Longrightarrow> Retry n w l t s = (out, s')"
  by (auto simp: Retry_def logW_apply split: prod.splits dest: Retry_loop_log_transparent)

text \<open>A run that has returned returns the same with more fuel.\<close>

lemma Retry_loop_more_fuel:
  "Retry_loop n w l t err s = (Returned r, s') \<Longrightarrow>
   Retry_loop (n + k) w l t err s = (Returned r, s')"
proof (induction n arbitrary: err s)
  case 0
  then show ?case
    by (cases err) (auto split: if_splits prod.splits)
next
  case (Suc n)
  then show ?case
    by (cases err) (auto split: if_splits prod.splits)
qed

lemma Retry_more_fuel:
  "Retry n w l t s = (Returned r, s') \<Longrightarrow> Retry (n + k) w l t s = (Returned r, s')"
  by (auto simp: Retry_def split: prod.splits dest: Retry_loop_more_fuel)

subsection \<open>A limiter with private state\<close>

lemma private_limiter_apply:
  "private_limiter limiter err (c, u) = (fst (limiter err c), (snd (limiter err c), u))"
  by (simp add: private_limiter_def split: prod.split)

lemma outside_worker_apply:
  "outside_worker worker (c, u) = (fst (worker u), (c, snd (worker u)))"
  by (simp add: outside_worker_def split: prod.split)

lemma outside_timer_apply: "outside_timer timer (c, u) = (c, timer u)"
  by (simp add: outside_timer_def)

lemma Counts_loop:
  assumes fail: "\<forall>u. fst (worker u) \<noteq> None"
  shows "nat (N - c) \<le> n \<Longrightarrow>
    \<exists>e s' rest.
      Retry_loop n (logW (outside_worker worker)) (logL (private_limiter (Counts N)))
          (logT (outside_timer timer)) (Some e0) ((c, u), tr)
        = (Returned (Some e), (s', tr @ rest))
      \<and> length (filter isWorkerCall rest) = nat (N - c)"
proof (induction n arbitrary: c u tr e0)
  case 0
  then have "\<not> c < N" by simp
  then have stop: "\<not> fst (private_limiter (Counts N) (Some e0) (c, u))"
    by (simp add: private_limiter_apply Counts_def)
  from \<open>\<not> c < N\<close> show ?case
    unfolding Retry_loop_stop [of "private_limiter (Counts N)" e0 "(c, u)", OF stop] by simp
next
  case (Suc n)
  show ?case
  proof (cases "c < N")
    case False
    then have stop: "\<not> fst (private_limiter (Counts N) (Some e0) (c, u))"
      by (simp add: private_limiter_apply Counts_def)
    from False show ?thesis
      unfolding Retry_loop_stop [of "private_limiter (Counts N)" e0 "(c, u)", OF stop] by simp
  next
    case True
    then have again: "fst (private_limiter (Counts N) (Some e0) (c, u))"
      by (simp add: private_limiter_apply Counts_def)
    have s1: "snd (private_limiter (Counts N) (Some e0) (c, u)) = (c + 1, u)"
      using True by (simp add: private_limiter_apply Counts_def)
    obtain e1 where e1: "fst (worker (timer u)) = Some e1"
      using fail [rule_format, of "timer u"] by (cases "fst (worker (timer u))") auto
    define tr3 where
      "tr3 = tr @ [LimiterCall (Some e0) True, TimerCall, WorkerCall (Some e1)]"
    have fuel: "nat (N - (c + 1)) \<le> n" using Suc.prems True by simp
    from Suc.IH [OF fuel, of e1 "snd (worker (timer u))" tr3] obtain e s' rest where
      run: "Retry_loop n (logW (outside_worker worker)) (logL (private_limiter (Counts N)))
              (logT (outside_timer timer)) (Some e1) ((c + 1, snd (worker (timer u))), tr3)
            = (Returned (Some e), (s', tr3 @ rest))" and
      cnt: "length (filter isWorkerCall rest) = nat (N - (c + 1))"
      by blast
    let ?rest = "LimiterCall (Some e0) True # TimerCall # WorkerCall (Some e1) # rest"
    have "Retry_loop (Suc n) (logW (outside_worker worker)) (logL (private_limiter (Counts N)))
              (logT (outside_timer timer)) (Some e0) ((c, u), tr)
            = (Returned (Some e), (s', tr @ ?rest))"
      unfolding Retry_loop_again [of "private_limiter (Counts N)" e0 "(c, u)", OF again] s1
      using run by (simp add: outside_timer_apply outside_worker_apply e1 tr3_def)
    moreover have "length (filter isWorkerCall ?rest) = nat (N - c)"
      using cnt True by simp
    ultimately show ?thesis by blast
  qed
qed

subsection \<open>The claims about Retry\<close>

text \<open>
  C1. For every worker, limiter and timer, every starting state and every amount of fuel,
  the log of the run (also of a run cut short for lack of fuel)
  \<^item> starts with a worker call;
  \<^item> is in \<open>retry_order\<close>: a limiter call comes only directly after a failed worker call,
    with that call's error; a timer call comes only directly after a limiter call that
    answered true, so never after one that answered false and never after a worker call
    that returned nil; a worker call other than the first comes only directly after a timer
    call; hence two limiter calls, and two timer calls, are never next to each other, and
    between two limiter calls there is exactly one timer call;
  \<^item> with the worker calls left out, is a sequence in which limiter calls and timer calls
    take turns: each event is of the other kind than the one before it;
  \<^item> holds exactly one worker call more than timer calls: one for the first attempt and
    one for each pass of the loop;
  \<^item> ends as the outcome says (\<open>final_event\<close>).
\<close>

theorem Retry_call_order:
  assumes "Retry n (logW worker) (logL limiter) (logT timer) (s, []) = (out, (s', tr))"
  shows "(\<exists>first rest. tr = WorkerCall first # rest)
       \<and> successively retry_order tr
       \<and> successively takes_turns (filter (\<lambda>ev. \<not> isWorkerCall ev) tr)
       \<and> length (filter isWorkerCall tr) = Suc (length (filter isTimerCall tr))
       \<and> final_event out (last tr)"
  using Retry_log [OF assms] by blast

theorem Retry_call_order_witness:
  "Retry 5 (logW (flaky 2)) (logL Forever) (logT id) (0, [])
     = (Returned None,
        (3, [WorkerCall (Some 0), LimiterCall (Some 0) True, TimerCall,
             WorkerCall (Some 1), LimiterCall (Some 1) True, TimerCall, WorkerCall None]))
   \<and> successively retry_order
        [WorkerCall (Some 0), LimiterCall (Some 0) True, TimerCall,
         WorkerCall (Some (1::nat)), LimiterCall (Some 1) True, TimerCall, WorkerCall None]
   \<and> successively takes_turns
        [LimiterCall (Some (0::nat)) True, TimerCall, LimiterCall (Some 1) True, TimerCall]"
proof -
  have run: "Retry 5 (logW (flaky 2)) (logL Forever) (logT id) (0, [])
     = (Returned None,
        (3, [WorkerCall (Some 0), LimiterCall (Some 0) True, TimerCall,
             WorkerCall (Some 1), LimiterCall (Some 1) True, TimerCall, WorkerCall None]))"
    by code_simp
  from Retry_call_order [OF run] run show ?thesis by simp
qed

text \<open>
  C2. If the worker's first invocation returns nil, then for every limiter, every timer and
  every amount of fuel (also none) Retry returns nil, and the log of the run holds exactly
  one event, that worker call: the limiter and the timer are never called.
\<close>

theorem Retry_first_success:
  assumes "fst (worker s) = None"
  shows "Retry n (logW worker) (logL limiter) (logT timer) (s, [])
           = (Returned None, (snd (worker s), [WorkerCall None]))"
  using assms by (simp add: Retry_def logW_apply)

theorem Retry_first_success_witness:
  "fst (flaky 0 7) = None
   \<and> Retry 0 (logW (flaky 0)) (logL Forever) (logT id) (7, [])
       = (Returned None, (8, [WorkerCall None]))"
proof -
  have h: "fst (flaky 0 7) = None" by (simp add: flaky_def)
  from Retry_first_success [of "flaky 0" 7 0 Forever id] h show ?thesis
    by (simp add: flaky_def)
qed

text \<open>
  C3. Let the worker fail in every state, and let the limiter be \<open>Counts N\<close>, started
  with its counter at 1 and private to the limiter. Then for every timer and every integer
  \<open>N\<close>, with fuel for \<open>N - 1\<close> passes of the loop, Retry returns, and what it returns is
  the error of the last worker call. The worker is called exactly \<open>N\<close> times when
  \<open>N \<ge> 1\<close>, and exactly once when \<open>N \<le> 1\<close> (zero and negative \<open>N\<close> included).
\<close>

theorem Retry_Counts_always_failing:
  assumes "\<forall>u. fst (worker u) \<noteq> None" and "nat (N - 1) \<le> n"
  shows "\<exists>e s' tr.
      Retry n (logW (outside_worker worker)) (logL (private_limiter (Counts N)))
          (logT (outside_timer timer)) ((Counts_closure, u), [])
        = (Returned (Some e), (s', tr))
      \<and> last (filter isWorkerCall tr) = WorkerCall (Some e)
      \<and> (1 \<le> N \<longrightarrow> int (length (filter isWorkerCall tr)) = N)
      \<and> (N \<le> 1 \<longrightarrow> length (filter isWorkerCall tr) = 1)"
proof -
  obtain e0 where e0: "fst (worker u) = Some e0"
    using assms(1) [rule_format, of u] by (cases "fst (worker u)") auto
  from Counts_loop [OF assms(1), of N 1 n timer e0 "snd (worker u)" "[WorkerCall (Some e0)]"] assms(2)
  obtain e s' rest where
    loop: "Retry_loop n (logW (outside_worker worker)) (logL (private_limiter (Counts N)))
          (logT (outside_timer timer)) (Some e0) ((1, snd (worker u)), [WorkerCall (Some e0)])
        = (Returned (Some e), (s', [WorkerCall (Some e0)] @ rest))" and
    cnt: "length (filter isWorkerCall rest) = nat (N - 1)"
    by blast
  let ?tr = "WorkerCall (Some e0) # rest"
  have run: "Retry n (logW (outside_worker worker)) (logL (private_limiter (Counts N)))
          (logT (outside_timer timer)) ((Counts_closure, u), [])
        = (Returned (Some e), (s', ?tr))"
    using loop by (simp add: Retry_def logW_apply outside_worker_apply e0 Counts_closure_def
        del: Retry_loop.simps)
  from Retry_log [OF run] have "last_attempt (Returned (Some e)) (last (filter isWorkerCall ?tr))"
    by blast
  then have lst: "last (filter isWorkerCall ?tr) = WorkerCall (Some e)"
    by (rule last_attempt_Returned) simp
  have c1: "1 \<le> N \<longrightarrow> int (length (filter isWorkerCall ?tr)) = N"
    using cnt by simp
  have c2: "N \<le> 1 \<longrightarrow> length (filter isWorkerCall ?tr) = 1"
    using cnt by simp
  from run lst c1 c2 show ?thesis by blast
qed


theorem Retry_Counts_always_failing_witness:
  "(\<forall>u. fst (hopeless u) \<noteq> None) \<and> nat (3 - 1) \<le> 2 \<and> nat (0 - 1) \<le> 0
   \<and> (\<exists>e s' tr.
        Retry 2 (logW (outside_worker hopeless)) (logL (private_limiter (Counts 3)))
            (logT (outside_timer id)) ((Counts_closure, 0), [])
          = (Returned (Some e), (s', tr))
        \<and> last (filter isWorkerCall tr) = WorkerCall (Some e)
        \<and> int (length (filter isWorkerCall tr)) = 3)
   \<and> (\<exists>e s' tr.
        Retry 0 (logW (outside_worker hopeless)) (logL (private_limiter (Counts 0)))
            (logT (outside_timer id)) ((Counts_closure, 0), [])
          = (Returned (Some e), (s', tr))
        \<and> last (filter isWorkerCall tr) = WorkerCall (Some e)
        \<and> length (filter isWorkerCall tr) = 1)"
proof -
  have h: "\<forall>u. fst (hopeless u) \<noteq> None" by (simp add: hopeless_def)
  have f: "nat (3 - 1) \<le> (2::nat)" by simp
  have g: "nat (0 - 1) \<le> (0::nat)" by simp
  from Retry_Counts_always_failing [OF h f, of id 0]
    Retry_Counts_always_failing [OF h g, of id 0] h f g
  show ?thesis by simp
qed

text \<open>
  C7. When Retry returns, what it returns is exactly what the last worker call returned:
  the error of the last failed attempt as it is, or nil when the last attempt succeeded,
  however many attempts failed before. And when the last worker call of a run returned
  nil, the run is not cut short: Retry has returned nil.
\<close>

theorem Retry_returns_last_error:
  assumes "Retry n (logW worker) (logL limiter) (logT timer) (s, []) = (out, (s', tr))"
  shows "(out = Returned r \<longrightarrow> last (filter isWorkerCall tr) = WorkerCall r)
       \<and> (last (filter isWorkerCall tr) = WorkerCall None \<longrightarrow> out = Returned None)"
proof -
  from Retry_log [OF assms] have la: "last_attempt out (last (filter isWorkerCall tr))"
    by blast
  have 1: "out = Returned r \<longrightarrow> last (filter isWorkerCall tr) = WorkerCall r"
    using last_attempt_Returned [OF la] by blast
  have 2: "last (filter isWorkerCall tr) = WorkerCall None \<longrightarrow> out = Returned None"
    using last_attempt_success [of out] la by auto
  from 1 2 show ?thesis by blast
qed

theorem Retry_returns_last_error_witness:
  "Retry 1 (logW (outside_worker (flaky 5))) (logL (private_limiter (Counts 2)))
        (logT (outside_timer id)) ((Counts_closure, 0), [])
     = (Returned (Some 1),
        ((2, 2), [WorkerCall (Some 0), LimiterCall (Some 0) True, TimerCall,
                  WorkerCall (Some 1), LimiterCall (Some 1) False]))
   \<and> last (filter isWorkerCall
        [WorkerCall (Some 0), LimiterCall (Some 0) True, TimerCall,
         WorkerCall (Some (1::nat)), LimiterCall (Some 1) False]) = WorkerCall (Some 1)
   \<and> last (filter isWorkerCall
        [WorkerCall (Some (0::nat)), LimiterCall (Some 0) True, TimerCall, WorkerCall None])
       = WorkerCall None
   \<and> Retry 3 (logW (flaky 1)) (logL Forever) (logT id) (0, [])
     = (Returned None,
        (2, [WorkerCall (Some 0), LimiterCall (Some 0) True, TimerCall, WorkerCall None]))"
proof -
  have run: "Retry 1 (logW (outside_worker (flaky 5))) (logL (private_limiter (Counts 2)))
        (logT (outside_timer id)) ((Counts_closure, 0), [])
     = (Returned (Some 1),
        ((2, 2), [WorkerCall (Some 0), LimiterCall (Some 0) True, TimerCall,
                  WorkerCall (Some 1), LimiterCall (Some 1) False]))"
    by code_simp
  have run': "Retry 3 (logW (flaky 1)) (logL Forever) (logT id) (0, [])
     = (Returned None,
        (2, [WorkerCall (Some 0), LimiterCall (Some 0) True, TimerCall, WorkerCall None]))"
    by code_simp
  from Retry_returns_last_error [OF run, of "Some 1"]
    Retry_returns_last_error [OF run', of None] run run'
  show ?thesis by simp
qed

section \<open>Properties of the limiters\<close>

text \<open>
  C4. Let the state be canceled or not as \<open>ctx\<close> reads it when the limiter built by
  CancelableLimiter is called, with any error (nil included). If it is canceled, the
  limiter answers false and the inner limiter is not invoked: the state is unchanged and,
  with the inner limiter's calls logged, the log is unchanged. If it is not canceled, the
  inner limiter is invoked once, with the same error and in the same state, and its answer
  and the state it leaves are returned as they are.
\<close>

theorem CancelableLimiter_checks_first:
  "(ctx s \<longrightarrow>
      CancelableLimiter (ctx \<circ> fst) (logL inner) err (s, tr) = (False, (s, tr)))
   \<and> (\<not> ctx s \<longrightarrow>
      CancelableLimiter (ctx \<circ> fst) (logL inner) err (s, tr)
        = (fst (inner err s), (snd (inner err s), tr @ [LimiterCall err (fst (inner err s))])))
   \<and> (ctx s \<longrightarrow> CancelableLimiter ctx inner err s = (False, s))
   \<and> (\<not> ctx s \<longrightarrow> CancelableLimiter ctx inner err s = inner err s)"
  by (simp add: CancelableLimiter_def logL_apply)

theorem CancelableLimiter_checks_first_witness:
  "CancelableLimiter ((\<lambda>canceled. canceled) \<circ> fst) (logL Forever) (Some (1::nat)) (True, [])
     = (False, (True, []))
   \<and> CancelableLimiter ((\<lambda>canceled. canceled) \<circ> fst) (logL Forever) (Some (1::nat)) (False, [])
     = (True, (False, [LimiterCall (Some 1) True]))"
  using CancelableLimiter_checks_first [of "\<lambda>canceled. canceled" True Forever "Some (1::nat)" "[]"]
    CancelableLimiter_checks_first [of "\<lambda>canceled. canceled" False Forever "Some (1::nat)" "[]"]
  by (simp add: Forever_def)

text \<open>
  C5. UntilCanceled is CancelableLimiter over Forever, as functions. For every error and
  state it answers false when the context is canceled and true otherwise, and leaves the
  state as it is. Forever answers true and Once answers false, for every error and state.
\<close>

theorem UntilCanceled_is_cancelable_Forever:
  "UntilCanceled ctx = CancelableLimiter ctx Forever
   \<and> UntilCanceled ctx err s = (\<not> ctx s, s)
   \<and> Forever err' s' = (True, s')
   \<and> Once err'' s'' = (False, s'')"
  by (simp add: UntilCanceled_def CancelableLimiter_def Forever_def Once_def)

subsection \<open>Counts\<close>

text \<open>
  The answers of \<open>Counts maxv\<close> to any number of calls, from any value \<open>c\<close> of its
  counter: true as long as the counter is below \<open>maxv\<close>, which is \<open>maxv - c\<close> times
  (none when \<open>maxv \<le> c\<close>), then false; the counter goes up by one for each true.
\<close>

lemma Counts_calls:
  "limiter_calls (Counts maxv) errs c
     = (replicate (min (length errs) (nat (maxv - c))) True
          @ replicate (length errs - nat (maxv - c)) False,
        c + int (min (length errs) (nat (maxv - c))))"
proof (induction errs arbitrary: c)
  case Nil
  show ?case by simp
next
  case (Cons err errs)
  show ?case
  proof (cases "c < maxv")
    case True
    then have n: "nat (maxv - c) = Suc (nat (maxv - (c + 1)))" by simp
    have "limiter_calls (Counts maxv) (err # errs) c
        = (True # fst (limiter_calls (Counts maxv) errs (c + 1)),
           snd (limiter_calls (Counts maxv) errs (c + 1)))"
      using True by (simp add: Counts_def split: prod.split)
    then show ?thesis
      unfolding Cons.IH n by simp
  next
    case False
    then have n: "nat (maxv - c) = 0" by simp
    have "limiter_calls (Counts maxv) (err # errs) c
        = (False # fst (limiter_calls (Counts maxv) errs c),
           snd (limiter_calls (Counts maxv) errs c))"
      using False by (simp add: Counts_def split: prod.split)
    then show ?thesis
      unfolding Cons.IH n by simp
  qed
qed

lemma Counts_answers_true:
  "filter (\<lambda>b. b) (fst (limiter_calls (Counts maxv) errs c))
     = replicate (min (length errs) (nat (maxv - c))) True"
  by (simp add: Counts_calls)

text \<open>
  C10. The counter of \<open>Counts maxv\<close> never goes down, in one call or in many. Once a call
  has answered false, every later call answers false, whatever errors it is given. Of the
  answers a limiter gives in its whole life, from its counter at 1, at most \<open>maxv - 1\<close>
  are true, and none when \<open>maxv \<le> 1\<close>.
\<close>

theorem Counts_exhausted_for_good:
  "c \<le> snd (Counts maxv err c)
   \<and> c \<le> snd (limiter_calls (Counts maxv) errs c)
   \<and> (\<not> fst (Counts maxv err c) \<longrightarrow>
        fst (limiter_calls (Counts maxv) errs (snd (Counts maxv err c)))
          = replicate (length errs) False)
   \<and> length (filter (\<lambda>b. b) (fst (limiter_calls (Counts maxv) errs Counts_closure)))
        \<le> nat (maxv - 1)
   \<and> (maxv \<le> 1 \<longrightarrow>
        fst (limiter_calls (Counts maxv) errs Counts_closure) = replicate (length errs) False)"
proof -
  have 1: "c \<le> snd (Counts maxv err c)" by (simp add: Counts_def)
  have 2: "c \<le> snd (limiter_calls (Counts maxv) errs c)" by (simp add: Counts_calls)
  have 3: "\<not> fst (Counts maxv err c) \<longrightarrow>
        fst (limiter_calls (Counts maxv) errs (snd (Counts maxv err c)))
          = replicate (length errs) False"
  proof
    assume "\<not> fst (Counts maxv err c)"
    then have stop: "\<not> c < maxv" and same: "snd (Counts maxv err c) = c"
      by (auto simp: Counts_def split: if_splits)
    from stop show "fst (limiter_calls (Counts maxv) errs (snd (Counts maxv err c)))
          = replicate (length errs) False"
      unfolding same Counts_calls by simp
  qed
  have 4: "length (filter (\<lambda>b. b) (fst (limiter_calls (Counts maxv) errs Counts_closure)))
        \<le> nat (maxv - 1)"
    unfolding Counts_answers_true by (simp add: Counts_closure_def)
  have 5: "maxv \<le> 1 \<longrightarrow>
        fst (limiter_calls (Counts maxv) errs Counts_closure) = replicate (length errs) False"
    by (simp add: Counts_calls Counts_closure_def)
  from 1 2 3 4 5 show ?thesis by blast
qed

theorem Counts_exhausted_for_good_witness:
  "\<not> fst (Counts 3 (Some (0::nat)) 3)
   \<and> fst (limiter_calls (Counts 3) [Some (1::nat), None] (snd (Counts 3 (Some (0::nat)) 3)))
       = [False, False]
   \<and> (0::int) \<le> 1
   \<and> fst (limiter_calls (Counts 0) [Some (1::nat), None] Counts_closure) = [False, False]"
  using Counts_exhausted_for_good [of 3 3 "Some (0::nat)" "[Some (1::nat), None]"]
    Counts_exhausted_for_good [of 1 0 "Some (0::nat)" "[Some (1::nat), None]"]
  by (simp add: Counts_def numeral_2_eq_2)

section \<open>Properties of the timers\<close>

subsection \<open>One call\<close>

lemma sint_smin: "sint (smin a b) = min (sint a) (sint b)"
  by (simp add: smin_def min_def)

lemma MultiplicativeBackoff_dur:
  "dur (MultiplicativeBackoff ceil s)
     = (if dur s = ceil then ceil else if sint ceil < sint (dur s * 2) then ceil else dur s * 2)"
  by (simp add: MultiplicativeBackoff_def Let_def)

lemma MultiplicativeBackoff_pauses:
  "pauses (MultiplicativeBackoff ceil s) = pauses s @ [Sleep (dur s)]"
  by (simp add: MultiplicativeBackoff_def Let_def)

lemma CancelableMultiplicativeBackoff_dur:
  "dur (CancelableMultiplicativeBackoff ceil canceled s)
     = (if dur s = ceil then ceil else if sint ceil < sint (dur s * 2) then ceil else dur s * 2)"
  by (simp add: CancelableMultiplicativeBackoff_def Let_def)

lemma CancelableMultiplicativeBackoff_pauses:
  "pauses (CancelableMultiplicativeBackoff ceil canceled s)
     = pauses s @ [if canceled then TimerStopped (dur s) else TimerFired (dur s)]"
  by (simp add: CancelableMultiplicativeBackoff_def Let_def)

lemma MultiplicativeBackoff_smin:
  "dur (MultiplicativeBackoff ceil s) = (if dur s = ceil then ceil else smin (dur s * 2) ceil)"
  by (auto simp: MultiplicativeBackoff_dur smin_def intro: signed_word_eqI)

lemma MultiplicativeBackoff_at_ceil:
  "dur s = ceil \<Longrightarrow> dur ((MultiplicativeBackoff ceil ^^ k) s) = ceil"
  by (induction k) (simp_all add: MultiplicativeBackoff_dur)

lemma funpow_two: "(f ^^ 2) x = f (f x)"
  by (simp add: numeral_2_eq_2)

lemma MultiplicativeBackoff_1_4:
  "(MultiplicativeBackoff 4 ^^ (n + 2)) (MultiplicativeBackoff_closure 1)
     = \<lparr>dur = 4, pauses = Sleep 1 # Sleep 2 # replicate n (Sleep 4)\<rparr>"
proof (induction n)
  case 0
  show ?case
    by (simp add: funpow_two MultiplicativeBackoff_def MultiplicativeBackoff_closure_def Let_def)
next
  case (Suc n)
  have "(MultiplicativeBackoff 4 ^^ (Suc n + 2)) (MultiplicativeBackoff_closure 1)
      = MultiplicativeBackoff 4 ((MultiplicativeBackoff 4 ^^ (n + 2)) (MultiplicativeBackoff_closure 1))"
    by simp
  also have "\<dots> = \<lparr>dur = 4, pauses = Sleep 1 # Sleep 2 # replicate n (Sleep 4) @ [Sleep 4]\<rparr>"
    unfolding Suc.IH by (simp add: MultiplicativeBackoff_def Let_def)
  finally show ?case by (simp add: replicate_append_same)
qed

lemma MB14_0: "pauses ((MultiplicativeBackoff 4 ^^ 0) (MultiplicativeBackoff_closure 1)) = []"
  by (simp add: MultiplicativeBackoff_closure_def)
lemma MB14_1: "pauses ((MultiplicativeBackoff 4 ^^ 1) (MultiplicativeBackoff_closure 1)) = [Sleep 1]"
  by (simp add: MultiplicativeBackoff_closure_def MultiplicativeBackoff_pauses)

lemma MultiplicativeBackoff_1_4_pauses:
  "pauses ((MultiplicativeBackoff 4 ^^ n) (MultiplicativeBackoff_closure 1))
     = map Sleep (take n [1, 2] @ replicate (n - 2) 4)"
proof -
  consider "n = 0" | "n = 1" | k where "n = k + 2"
    by (metis One_nat_def add_2_eq_Suc' not0_implies_Suc)
  then show ?thesis
  proof cases
    case 1
    then show ?thesis by (simp add: MultiplicativeBackoff_closure_def)
  next
    case 2
    then show ?thesis
      by (simp add: MultiplicativeBackoff_closure_def MultiplicativeBackoff_pauses)
  next
    case 3
    then show ?thesis
      unfolding 3 MultiplicativeBackoff_1_4 by simp
  qed
qed

text \<open>
  As long as twice the delay fits in 64 bits, the wrapped product is the product of the
  integers, and the delay after a call is the smaller of twice the delay and the ceiling.
\<close>

lemma sint_double:
  fixes d :: Duration
  assumes "- (2 ^ 62) \<le> sint d" and "sint d < 2 ^ 62"
  shows "sint (d * 2) = 2 * sint d"
proof -
  have "sint (d * 2) = signed_take_bit 63 (sint d * 2)"
    by (simp add: sint_word_ariths)
  also have "\<dots> = sint d * 2"
    using assms by (intro signed_take_bit_int_eq_self) simp_all
  finally show ?thesis by simp
qed

lemma doubled_base_above_ceil:
  fixes base ceil :: Duration
  assumes "0 \<le> sint base" and "sint base < 2 ^ 62" and "sint ceil < sint base"
  shows "sint ceil \<le> sint (base * 2)"
proof -
  have "sint (base * 2) = 2 * sint base"
    using assms by (intro sint_double) simp_all
  with assms show ?thesis by simp
qed

lemma MultiplicativeBackoff_no_overflow:
  assumes "- (2 ^ 62) \<le> sint (dur s)" and "sint (dur s) < 2 ^ 62" and "dur s \<noteq> ceil"
  shows "sint (dur (MultiplicativeBackoff ceil s)) = min (2 * sint (dur s)) (sint ceil)"
  using assms by (simp add: MultiplicativeBackoff_smin sint_smin sint_double)

text \<open>
  C6, as the code has it. A timer built by MultiplicativeBackoff with base 1 and ceiling 4,
  called \<open>n\<close> times, has slept 1, 2, 4, 4, 4, ... in this order: the first \<open>n\<close> of 1
  and 2, then 4 for each further call. In general the delay starts at the base and a call
  sleeps the current delay. A delay equal to the ceiling stays there, after one call and
  after any number of calls. A delay \<open>d\<close> other than the ceiling whose double fits in
  \<^verbatim>\<open>int64\<close>, that is with \<open>- 2 ^ 62 \<le> d < 2 ^ 62\<close> nanoseconds, becomes the smaller
  of \<open>2 * d\<close> and the ceiling, as integers.
\<close>

theorem MultiplicativeBackoff_schedule:
  "pauses ((MultiplicativeBackoff 4 ^^ n) (MultiplicativeBackoff_closure 1))
     = map Sleep (take n [1, 2] @ replicate (n - 2) 4)
   \<and> dur (MultiplicativeBackoff_closure base) = base
   \<and> pauses (MultiplicativeBackoff ceil s) = pauses s @ [Sleep (dur s)]
   \<and> (dur s = ceil \<longrightarrow> dur (MultiplicativeBackoff ceil s) = ceil)
   \<and> (dur s \<noteq> ceil \<and> - (2 ^ 62) \<le> sint (dur s) \<and> sint (dur s) < 2 ^ 62 \<longrightarrow>
        sint (dur (MultiplicativeBackoff ceil s)) = min (2 * sint (dur s)) (sint ceil))
   \<and> (dur s = ceil \<longrightarrow> dur ((MultiplicativeBackoff ceil ^^ k) s) = ceil)"
proof -
  have 1: "pauses ((MultiplicativeBackoff 4 ^^ n) (MultiplicativeBackoff_closure 1))
     = map Sleep (take n [1, 2] @ replicate (n - 2) 4)"
    by (rule MultiplicativeBackoff_1_4_pauses)
  have 2: "dur (MultiplicativeBackoff_closure base) = base"
    by (simp add: MultiplicativeBackoff_closure_def)
  have 3: "pauses (MultiplicativeBackoff ceil s) = pauses s @ [Sleep (dur s)]"
    by (rule MultiplicativeBackoff_pauses)
  have 4: "dur s = ceil \<longrightarrow> dur (MultiplicativeBackoff ceil s) = ceil"
    by (simp add: MultiplicativeBackoff_dur)
  have 5: "dur s \<noteq> ceil \<and> - (2 ^ 62) \<le> sint (dur s) \<and> sint (dur s) < 2 ^ 62 \<longrightarrow>
        sint (dur (MultiplicativeBackoff ceil s)) = min (2 * sint (dur s)) (sint ceil)"
    using MultiplicativeBackoff_no_overflow [of s ceil] by blast
  have 6: "dur s = ceil \<longrightarrow> dur ((MultiplicativeBackoff ceil ^^ k) s) = ceil"
    by (simp add: MultiplicativeBackoff_at_ceil)
  from 1 2 3 4 5 6 show ?thesis by blast
qed

theorem MultiplicativeBackoff_schedule_witness:
  "pauses ((MultiplicativeBackoff 4 ^^ 5) (MultiplicativeBackoff_closure 1))
     = [Sleep 1, Sleep 2, Sleep 4, Sleep 4, Sleep 4]
   \<and> dur \<lparr>dur = 3, pauses = []\<rparr> \<noteq> (4 :: Duration)
   \<and> - (2 ^ 62) \<le> sint (dur \<lparr>dur = 3, pauses = []\<rparr>)
   \<and> sint (dur \<lparr>dur = 3, pauses = []\<rparr>) < 2 ^ 62
   \<and> sint (dur (MultiplicativeBackoff 4 \<lparr>dur = 3, pauses = []\<rparr>)) = min (2 * 3) 4
   \<and> dur \<lparr>dur = 4, pauses = []\<rparr> = (4 :: Duration)
   \<and> dur (MultiplicativeBackoff 4 \<lparr>dur = 4, pauses = []\<rparr>) = 4
   \<and> dur ((MultiplicativeBackoff 4 ^^ 3) \<lparr>dur = 4, pauses = []\<rparr>) = 4"
  using MultiplicativeBackoff_schedule [of 5 0 4 "\<lparr>dur = 3, pauses = []\<rparr>" 0]
    MultiplicativeBackoff_schedule [of 0 0 4 "\<lparr>dur = 4, pauses = []\<rparr>" 3]
  by (simp add: eval_nat_numeral)

text \<open>
  C6, as it is written, fails where doubling the delay overflows \<^verbatim>\<open>int64\<close>. With
  base \<open>2 ^ 62\<close> ns and ceiling 5 ns the delay is not the ceiling, and the smaller of twice
  the delay and the ceiling is 5; but \<^verbatim>\<open>dur * 2\<close> wraps around to \<open>- 2 ^ 63\<close>, which is
  not above the ceiling and so is kept. The timer asks for \<open>2 ^ 62\<close>, then \<open>- 2 ^ 63\<close>,
  then 0 (the next product wraps to 0, where the delay stays), never for the ceiling.
\<close>

lemma funpow_three: "(f ^^ 3) x = f (f (f x))"
  by (simp add: numeral_3_eq_3)

theorem MultiplicativeBackoff_schedule_counterexample:
  "dur (MultiplicativeBackoff_closure (2 ^ 62)) \<noteq> 5
   \<and> sint (dur (MultiplicativeBackoff_closure (2 ^ 62))) = 2 ^ 62
   \<and> sint (dur (MultiplicativeBackoff 5 (MultiplicativeBackoff_closure (2 ^ 62)))) = - (2 ^ 63)
   \<and> min (2 * sint (dur (MultiplicativeBackoff_closure (2 ^ 62)))) (sint (5 :: Duration)) = 5
   \<and> map (sint \<circ> requested)
        (pauses ((MultiplicativeBackoff 5 ^^ 3) (MultiplicativeBackoff_closure (2 ^ 62))))
       = [2 ^ 62, - (2 ^ 63), 0]"
  by (simp add: funpow_three MultiplicativeBackoff_def MultiplicativeBackoff_closure_def Let_def)


subsection \<open>The cancelable timer beside the plain one\<close>

text \<open>
  Two timers that start with the same delay and have asked for the same pauses keep doing
  so, call after call, whatever the outcome of each race of the cancelable one.
\<close>

lemma CancelableMultiplicativeBackoff_like_plain:
  "dur s = dur s' \<Longrightarrow> map requested (pauses s) = map requested (pauses s') \<Longrightarrow>
   dur (fold (CancelableMultiplicativeBackoff ceil) outcomes s)
     = dur ((MultiplicativeBackoff ceil ^^ length outcomes) s')
   \<and> map requested (pauses (fold (CancelableMultiplicativeBackoff ceil) outcomes s))
     = map requested (pauses ((MultiplicativeBackoff ceil ^^ length outcomes) s'))"
proof (induction outcomes arbitrary: s s')
  case Nil
  then show ?case by simp
next
  case (Cons b bs)
  have d: "dur (CancelableMultiplicativeBackoff ceil b s) = dur (MultiplicativeBackoff ceil s')"
    using Cons.prems(1)
    by (simp add: CancelableMultiplicativeBackoff_dur MultiplicativeBackoff_dur)
  have p: "map requested (pauses (CancelableMultiplicativeBackoff ceil b s))
      = map requested (pauses (MultiplicativeBackoff ceil s'))"
    using Cons.prems
    by (simp add: CancelableMultiplicativeBackoff_pauses MultiplicativeBackoff_pauses)
  from Cons.IH [OF d p] show ?case
    by (simp add: funpow_swap1)
qed

lemma closures_agree:
  "dur (CancelableMultiplicativeBackoff_closure base) = dur (MultiplicativeBackoff_closure base)"
  "map requested (pauses (CancelableMultiplicativeBackoff_closure base))
     = map requested (pauses (MultiplicativeBackoff_closure base))"
  by (simp_all add: CancelableMultiplicativeBackoff_closure_def MultiplicativeBackoff_closure_def)


subsection \<open>A base above the ceiling\<close>

lemma MultiplicativeBackoff_stays:
  "dur s = ceil \<Longrightarrow>
   (MultiplicativeBackoff ceil ^^ n) s = s\<lparr>pauses := pauses s @ replicate n (Sleep ceil)\<rparr>"
proof (induction n)
  case 0
  then show ?case by simp
next
  case (Suc n)
  then show ?case
    by (simp add: MultiplicativeBackoff_def Let_def replicate_append_same)
qed

lemma MultiplicativeBackoff_first_call:
  assumes "sint ceil < sint base" and "sint ceil \<le> sint (base * 2)"
  shows "MultiplicativeBackoff ceil (MultiplicativeBackoff_closure base)
           = \<lparr>dur = ceil, pauses = [Sleep base]\<rparr>"
proof -
  have ne: "base \<noteq> ceil" using assms(1) by auto
  show ?thesis
  proof (cases "sint ceil < sint (base * 2)")
    case True
    with ne show ?thesis
      by (simp add: MultiplicativeBackoff_def MultiplicativeBackoff_closure_def Let_def)
  next
    case False
    with assms(2) have "sint (base * 2) = sint ceil" by simp
    then have "base * 2 = ceil" by (rule signed_word_eqI)
    with ne False show ?thesis
      by (simp add: MultiplicativeBackoff_def MultiplicativeBackoff_closure_def Let_def)
  qed
qed

lemma MultiplicativeBackoff_base_above_ceil_run:
  assumes "sint ceil < sint base" and "sint ceil \<le> sint (base * 2)"
  shows "(MultiplicativeBackoff ceil ^^ Suc n) (MultiplicativeBackoff_closure base)
           = \<lparr>dur = ceil, pauses = Sleep base # replicate n (Sleep ceil)\<rparr>"
proof -
  have "(MultiplicativeBackoff ceil ^^ Suc n) (MultiplicativeBackoff_closure base)
      = (MultiplicativeBackoff ceil ^^ n) \<lparr>dur = ceil, pauses = [Sleep base]\<rparr>"
    unfolding funpow_Suc_right o_apply MultiplicativeBackoff_first_call [OF assms] ..
  also have "\<dots> = \<lparr>dur = ceil, pauses = Sleep base # replicate n (Sleep ceil)\<rparr>"
    by (simp add: MultiplicativeBackoff_stays)
  finally show ?thesis .
qed

text \<open>
  C9, as the code has it. Let the base be strictly greater than the ceiling, and let twice
  the base, as Go computes it on \<^verbatim>\<open>int64\<close>, be no less than the ceiling (so it is
  for every base from 0 to \<open>2 ^ 62 - 1\<close> nanoseconds, by \<open>doubled_base_above_ceil\<close>).
  Then the first call of the timer waits the whole base, and every later call waits exactly
  the ceiling; the same holds for the durations the cancelable timer asks for, whatever
  the outcomes of its races.
\<close>

theorem MultiplicativeBackoff_base_above_ceil:
  assumes "sint ceil < sint base" and "sint ceil \<le> sint (base * 2)"
  shows "pauses ((MultiplicativeBackoff ceil ^^ Suc n) (MultiplicativeBackoff_closure base))
           = Sleep base # replicate n (Sleep ceil)
       \<and> dur ((MultiplicativeBackoff ceil ^^ Suc n) (MultiplicativeBackoff_closure base)) = ceil
       \<and> map requested (pauses (fold (CancelableMultiplicativeBackoff ceil) (b # bs)
             (CancelableMultiplicativeBackoff_closure base)))
           = base # replicate (length bs) ceil
       \<and> dur (fold (CancelableMultiplicativeBackoff ceil) (b # bs)
             (CancelableMultiplicativeBackoff_closure base)) = ceil"
proof -
  note run = MultiplicativeBackoff_base_above_ceil_run [OF assms]
  note same = CancelableMultiplicativeBackoff_like_plain [OF closures_agree, of ceil "b # bs" base]
  have 1: "pauses ((MultiplicativeBackoff ceil ^^ Suc n) (MultiplicativeBackoff_closure base))
           = Sleep base # replicate n (Sleep ceil)"
    unfolding run by simp
  have 2: "dur ((MultiplicativeBackoff ceil ^^ Suc n) (MultiplicativeBackoff_closure base)) = ceil"
    unfolding run by simp
  have len: "length (b # bs) = Suc (length bs)" by simp
  have 3: "map requested (pauses (fold (CancelableMultiplicativeBackoff ceil) (b # bs)
             (CancelableMultiplicativeBackoff_closure base)))
           = base # replicate (length bs) ceil"
    using same unfolding len run by simp
  have 4: "dur (fold (CancelableMultiplicativeBackoff ceil) (b # bs)
             (CancelableMultiplicativeBackoff_closure base)) = ceil"
    using same unfolding len run by simp
  from 1 2 3 4 show ?thesis by blast
qed

theorem MultiplicativeBackoff_base_above_ceil_witness:
  "sint (5 :: Duration) < sint (8 :: Duration) \<and> sint (5 :: Duration) \<le> sint (8 * 2 :: Duration)
   \<and> pauses ((MultiplicativeBackoff 5 ^^ Suc 2) (MultiplicativeBackoff_closure 8))
       = [Sleep 8, Sleep 5, Sleep 5]
   \<and> map requested (pauses (fold (CancelableMultiplicativeBackoff 5) [True, False, True]
         (CancelableMultiplicativeBackoff_closure 8)))
       = [8, 5, 5]"
proof -
  have a: "sint (5 :: Duration) < sint (8 :: Duration)" by simp
  have b: "sint (5 :: Duration) \<le> sint (8 * 2 :: Duration)" by simp
  from MultiplicativeBackoff_base_above_ceil [OF a b, of 2 True "[False, True]"] a b
  show ?thesis by (simp add: numeral_2_eq_2)
qed

text \<open>
  C9, as it is written, fails for a negative base whose double falls below the ceiling.
  With base -3 ns and ceiling -4 ns the base is above the ceiling, the first call asks
  for -3 ns, the delay becomes -6 ns, which is not above the ceiling and so is kept, and
  the second call asks for -6 ns, not for the ceiling.
\<close>

theorem MultiplicativeBackoff_base_above_ceil_counterexample:
  "sint (- 4 :: Duration) < sint (- 3 :: Duration)
   \<and> pauses ((MultiplicativeBackoff (- 4) ^^ 2) (MultiplicativeBackoff_closure (- 3)))
       = [Sleep (- 3), Sleep (- 6)]
   \<and> (- 6 :: Duration) \<noteq> - 4"
  by (simp add: funpow_two MultiplicativeBackoff_def MultiplicativeBackoff_closure_def Let_def)


end
